theory Spec2Isabelle
  imports Main "HOL-Library.Word"
begin

section \<open>The token bucket of \<^verbatim>\<open>main.go\<close>\<close>

text \<open>
  The Go source keeps the bucket in a struct of \<^verbatim>\<open>int64\<close> fields guarded by a mutex:
  \<^verbatim>\<open>
  type TokenBucket struct {
      mu       sync.Mutex
      capacity int64
      tokens   int64
      rate     int64
      interval time.Duration
      ticker   *time.Ticker
      stop     chan bool
  }
  \<close>
  Go's \<^verbatim>\<open>int64\<close> is a 64-bit two's-complement integer: \<^verbatim>\<open>+=\<close> and \<^verbatim>\<open>--\<close> wrap around
  silently and \<^verbatim>\<open>>\<close> compares the signed values. The fields are therefore 64-bit words,
  read through \<open>sint\<close> wherever the source compares them. \<^verbatim>\<open>time.Duration\<close> is an
  \<^verbatim>\<open>int64\<close> count of nanoseconds.

  The mutex \<^verbatim>\<open>mu\<close> is taken at the start of \<^verbatim>\<open>Allow\<close> and of the tick branch of
  \<^verbatim>\<open>refill\<close> and released at their end, and \<^verbatim>\<open>tokens\<close> is touched nowhere else, so
  each of the two bodies runs as one indivisible step on the struct. The model has one
  function per body; every interleaving of the goroutines is a sequence of such steps.
  The objects behind the two reference fields (\<^verbatim>\<open>ticker\<close>, \<^verbatim>\<open>stop\<close>) live outside the
  struct and are part of the \<open>system\<close> record below.
\<close>

type_synonym int64 = "64 word"

record TokenBucket =
  capacity :: int64
  tokens :: int64
  rate :: int64
  interval :: int64

text \<open>
  \<^verbatim>\<open>
  func (tb *TokenBucket) Allow() bool {
      tb.mu.Lock()
      defer tb.mu.Unlock()
      if tb.tokens > 0 {
          tb.tokens--
          return true
      }
      return false
  }
  \<close>
  The receiver is mutated in place; the model returns the result together with the
  receiver after the call.
\<close>

definition Allow :: "TokenBucket \<Rightarrow> bool \<times> TokenBucket" where
  "Allow b =
     (if 0 < sint (tokens b) then (True, b\<lparr>tokens := tokens b - 1\<rparr>)
      else (False, b))"

text \<open>
  The tick branch of the \<^verbatim>\<open>select\<close> in \<^verbatim>\<open>refill\<close>:
  \<^verbatim>\<open>
  case <-tb.ticker.C:
      tb.mu.Lock()
      tb.tokens += tb.rate
      if tb.tokens > tb.capacity {
          tb.tokens = tb.capacity
      }
      log.Printf(...)
      tb.mu.Unlock()
  \<close>
  The addition is the wrapping addition of \<^verbatim>\<open>int64\<close>; the comparison is signed.
\<close>

definition refill_tick :: "TokenBucket \<Rightarrow> TokenBucket" where
  "refill_tick b =
     (let b1 = b\<lparr>tokens := tokens b + rate b\<rparr>
      in if sint (capacity b1) < sint (tokens b1) then b1\<lparr>tokens := capacity b1\<rparr> else b1)"

subsection \<open>The bucket together with its goroutine, ticker and channel\<close>

text \<open>
  \<^verbatim>\<open>NewTokenBucket\<close> allocates the struct with \<^verbatim>\<open>tokens = capacity\<close>, creates a running
  ticker with \<^verbatim>\<open>time.NewTicker(interval)\<close>, creates the unbuffered channel
  \<^verbatim>\<open>make(chan bool)\<close> and starts \<^verbatim>\<open>go tb.refill()\<close>. \<^verbatim>\<open>time.NewTicker\<close> panics when its
  argument is not positive; nothing else in the constructor looks at its arguments.

  The state of the running program, as far as the bucket is concerned:
  \<^item> \<open>bucket\<close>: the struct;
  \<^item> \<open>ticker_running\<close>: whether the ticker still delivers ticks (\<^verbatim>\<open>ticker.Stop()\<close> ends it);
  \<^item> \<open>refill_proc\<close>: where the goroutine running \<^verbatim>\<open>refill\<close> is: waiting at its
    \<^verbatim>\<open>select\<close>, or returned;
  \<^item> \<open>stop_senders\<close>: the number of callers of \<^verbatim>\<open>Stop\<close> that are blocked in the send
    \<^verbatim>\<open>tb.stop <- true\<close>. The channel has no buffer, so a send completes only in a
    rendezvous with a receive, and the only receive on \<^verbatim>\<open>tb.stop\<close> in the program is
    the second branch of the \<^verbatim>\<open>select\<close> in \<^verbatim>\<open>refill\<close>.
\<close>

datatype goroutine = AtSelect | Returned

datatype panic = NonPositiveTickerInterval

record system =
  bucket :: TokenBucket
  ticker_running :: bool
  refill_proc :: goroutine
  stop_senders :: nat

definition NewTokenBucket :: "int64 \<Rightarrow> int64 \<Rightarrow> int64 \<Rightarrow> panic + system" where
  "NewTokenBucket r c i =
     (if sint i \<le> 0 then Inl NonPositiveTickerInterval
      else Inr \<lparr>bucket = \<lparr>capacity = c, tokens = c, rate = r, interval = i\<rparr>,
                ticker_running = True, refill_proc = AtSelect, stop_senders = 0\<rparr>)"

text \<open>
  The events that change the state:
  \<^item> \<open>CallAllow\<close>: some goroutine runs \<^verbatim>\<open>Allow\<close>;
  \<^item> \<open>TickerFires\<close>: an interval elapses. If the ticker is running and the goroutine is
    at its \<^verbatim>\<open>select\<close>, the tick branch runs; otherwise nothing receives the tick;
  \<^item> \<open>StopSend\<close>: some goroutine calls \<^verbatim>\<open>Stop\<close> and blocks in the send;
  \<^item> \<open>StopRecv\<close>: the \<^verbatim>\<open>select\<close> takes its second branch,
    \<^verbatim>\<open>case <-tb.stop: tb.ticker.Stop(); return\<close>. It can do so only while the goroutine
    is at the \<^verbatim>\<open>select\<close> and a sender is waiting; one sender is released (its
    \<^verbatim>\<open>Stop\<close> returns), the ticker is stopped and the goroutine returns.
  An event that cannot happen in a state leaves the state as it is.
\<close>

datatype event = CallAllow | TickerFires | StopSend | StopRecv

fun step :: "event \<Rightarrow> system \<Rightarrow> system" where
  "step CallAllow s = s\<lparr>bucket := snd (Allow (bucket s))\<rparr>"
| "step TickerFires s =
     (if refill_proc s = AtSelect \<and> ticker_running s
      then s\<lparr>bucket := refill_tick (bucket s)\<rparr> else s)"
| "step StopSend s = s\<lparr>stop_senders := stop_senders s + 1\<rparr>"
| "step StopRecv s =
     (if refill_proc s = AtSelect \<and> 0 < stop_senders s
      then s\<lparr>stop_senders := stop_senders s - 1, ticker_running := False,
             refill_proc := Returned\<rparr>
      else s)"

fun run :: "event list \<Rightarrow> system \<Rightarrow> system" where
  "run [] s = s"
| "run (e # es) s = run es (step e s)"

text \<open>The results of the \<^verbatim>\<open>Allow\<close> calls of a run, in order.\<close>

fun admits :: "event list \<Rightarrow> system \<Rightarrow> bool list" where
  "admits [] s = []"
| "admits (CallAllow # es) s = fst (Allow (bucket s)) # admits es (step CallAllow s)"
| "admits (e # es) s = admits es (step e s)"

text \<open>\<open>n\<close> consecutive calls of \<^verbatim>\<open>Allow\<close> on one bucket, and \<open>n\<close> consecutive ticks.\<close>

fun allow_n :: "nat \<Rightarrow> TokenBucket \<Rightarrow> bool list \<times> TokenBucket" where
  "allow_n 0 b = ([], b)"
| "allow_n (Suc n) b =
     (let (r, b1) = Allow b; (rs, b2) = allow_n n b1 in (r # rs, b2))"

fun ticks :: "nat \<Rightarrow> TokenBucket \<Rightarrow> TokenBucket" where
  "ticks 0 b = b"
| "ticks (Suc n) b = ticks n (refill_tick b)"

text \<open>
  Two predicates on bucket states used in the proofs: the configuration cannot overflow
  (the rate is positive and \<open>capacity + rate\<close> fits \<^verbatim>\<open>int64\<close>), and \<open>tokens\<close> lies
  between zero and the capacity.
\<close>

definition no_overflow :: "TokenBucket \<Rightarrow> bool" where
  "no_overflow b \<longleftrightarrow> 0 < sint (rate b) \<and> sint (capacity b) + sint (rate b) < 2 ^ 63"

definition within :: "TokenBucket \<Rightarrow> bool" where
  "within b \<longleftrightarrow> 0 \<le> sint (tokens b) \<and> sint (tokens b) \<le> sint (capacity b)"

section \<open>Arithmetic of \<^verbatim>\<open>int64\<close>\<close>

lemma sint_int64_range: "- (2 ^ 63) \<le> sint (w :: int64) \<and> sint w < 2 ^ 63"
  using sint_ge [of w] sint_lt [of w] by simp

lemma sint_add_no_wrap:
  fixes a b :: int64
  assumes "- (2 ^ 63) \<le> sint a + sint b" and "sint a + sint b < 2 ^ 63"
  shows "sint (a + b) = sint a + sint b"
  using assms by (simp add: sint_word_ariths signed_take_bit_int_eq_self)

lemma sint_dec_pos:
  fixes a :: int64
  assumes "0 < sint a"
  shows "sint (a - 1) = sint a - 1"
proof -
  have "sint a < 2 ^ 63" using sint_int64_range [of a] by simp
  with assms show ?thesis
    by (simp add: sint_word_ariths signed_take_bit_int_eq_self)
qed

section \<open>The decision operation\<close>

text \<open>
  C2. A call of \<^verbatim>\<open>Allow\<close> on any bucket state returns true and lowers \<open>tokens\<close> by exactly
  one (no other field changes) when \<open>tokens > 0\<close>, and returns false and leaves the whole
  struct as it was when \<open>tokens \<le> 0\<close>. \<open>Allow\<close> is a total function into
  \<open>bool \<times> TokenBucket\<close>: there is no third outcome.
\<close>

theorem Allow_admit_or_reject:
  "(0 < sint (tokens b) \<longrightarrow>
      fst (Allow b) = True \<and> sint (tokens (snd (Allow b))) = sint (tokens b) - 1 \<and>
      snd (Allow b) = b\<lparr>tokens := tokens b - 1\<rparr>) \<and>
   (sint (tokens b) \<le> 0 \<longrightarrow> fst (Allow b) = False \<and> snd (Allow b) = b)"
  by (simp add: Allow_def sint_dec_pos)

theorem Allow_admit_or_reject_witness:
  "Allow \<lparr>capacity = 10, tokens = 3, rate = 1, interval = 2\<rparr> =
     (True, \<lparr>capacity = 10, tokens = 2, rate = 1, interval = 2\<rparr>) \<and>
   Allow \<lparr>capacity = 10, tokens = 0, rate = 1, interval = 2\<rparr> =
     (False, \<lparr>capacity = 10, tokens = 0, rate = 1, interval = 2\<rparr>) \<and>
   Allow \<lparr>capacity = 10, tokens = - 5, rate = 1, interval = 2\<rparr> =
     (False, \<lparr>capacity = 10, tokens = - 5, rate = 1, interval = 2\<rparr>)"
  using Allow_admit_or_reject [of "\<lparr>capacity = 10, tokens = 3, rate = 1, interval = 2\<rparr>"]
    Allow_admit_or_reject [of "\<lparr>capacity = 10, tokens = 0, rate = 1, interval = 2\<rparr>"]
    Allow_admit_or_reject [of "\<lparr>capacity = 10, tokens = - 5, rate = 1, interval = 2\<rparr>"]
  by (simp add: prod_eq_iff)

section \<open>Basic facts about \<^verbatim>\<open>Allow\<close>, the tick and runs\<close>

lemma refill_tick_frame:
  "capacity (refill_tick b) = capacity b \<and> rate (refill_tick b) = rate b \<and>
   interval (refill_tick b) = interval b"
  by (simp add: refill_tick_def Let_def)

lemma refill_tick_tokens:
  "tokens (refill_tick b) =
     (if sint (capacity b) < sint (tokens b + rate b) then capacity b else tokens b + rate b)"
  by (simp add: refill_tick_def Let_def)

lemma refill_tick_le_capacity: "sint (tokens (refill_tick b)) \<le> sint (capacity b)"
  by (simp add: refill_tick_tokens)

lemma refill_tick_min_wrapped:
  "sint (tokens (refill_tick b)) = min (sint (tokens b + rate b)) (sint (capacity b))"
  by (simp add: refill_tick_tokens min_def)

lemma refill_tick_min_exact:
  assumes "- (2 ^ 63) \<le> sint (tokens b) + sint (rate b)"
    and "sint (tokens b) + sint (rate b) < 2 ^ 63"
  shows "sint (tokens (refill_tick b)) = min (sint (tokens b) + sint (rate b)) (sint (capacity b))"
  using assms by (simp add: refill_tick_min_wrapped sint_add_no_wrap)

lemma Allow_frame:
  "capacity (snd (Allow b)) = capacity b \<and> rate (snd (Allow b)) = rate b \<and>
   interval (snd (Allow b)) = interval b"
  by (simp add: Allow_def)

lemma Allow_tokens_le: "sint (tokens (snd (Allow b))) \<le> sint (tokens b)"
  by (simp add: Allow_def sint_dec_pos)

lemma Allow_nonneg: "0 \<le> sint (tokens b) \<Longrightarrow> 0 \<le> sint (tokens (snd (Allow b)))"
  by (simp add: Allow_def sint_dec_pos)

lemma run_append: "run (es @ fs) s = run fs (run es s)"
  by (induction es arbitrary: s) simp_all

section \<open>The invariant on \<open>tokens\<close>\<close>

lemma refill_tick_exact:
  assumes "within b" and "no_overflow b"
  shows "sint (tokens (refill_tick b)) = min (sint (tokens b) + sint (rate b)) (sint (capacity b))"
proof (rule refill_tick_min_exact)
  show "- (2 ^ 63) \<le> sint (tokens b) + sint (rate b)"
    using assms by (simp add: within_def no_overflow_def)
  show "sint (tokens b) + sint (rate b) < 2 ^ 63"
    using assms by (simp add: within_def no_overflow_def)
qed

lemma refill_tick_within:
  assumes "within b" and "no_overflow b"
  shows "within (refill_tick b)"
  using assms refill_tick_exact [OF assms]
  by (simp add: within_def no_overflow_def refill_tick_frame)

lemma refill_tick_no_overflow: "no_overflow (refill_tick b) = no_overflow b"
  by (simp add: no_overflow_def refill_tick_frame)

lemma Allow_within: "within b \<Longrightarrow> within (snd (Allow b))"
  using Allow_tokens_le [of b] Allow_nonneg [of b]
  by (simp add: within_def Allow_frame)

lemma Allow_no_overflow: "no_overflow (snd (Allow b)) = no_overflow b"
  by (simp add: no_overflow_def Allow_frame)

lemma step_within:
  assumes "within (bucket s)" and "no_overflow (bucket s)"
  shows "within (bucket (step e s)) \<and> no_overflow (bucket (step e s))"
  using assms
  by (cases e) (simp_all add: Allow_within Allow_no_overflow refill_tick_within refill_tick_no_overflow)

lemma run_within:
  assumes "within (bucket s)" and "no_overflow (bucket s)"
  shows "within (bucket (run es s)) \<and> no_overflow (bucket (run es s))"
  using assms
proof (induction es arbitrary: s)
  case Nil
  then show ?case by simp
next
  case (Cons e es)
  then show ?case using step_within [of s e] by simp
qed

lemma step_frame:
  "capacity (bucket (step e s)) = capacity (bucket s) \<and> rate (bucket (step e s)) = rate (bucket s) \<and>
   interval (bucket (step e s)) = interval (bucket s)"
  by (cases e) (simp_all add: Allow_frame refill_tick_frame)

lemma run_frame:
  "capacity (bucket (run es s)) = capacity (bucket s) \<and> rate (bucket (run es s)) = rate (bucket s) \<and>
   interval (bucket (run es s)) = interval (bucket s)"
  by (induction es arbitrary: s) (simp_all add: step_frame)

lemma Allow_capped:
  "sint (tokens b) \<le> sint (capacity b) \<Longrightarrow> sint (tokens (snd (Allow b))) \<le> sint (capacity (snd (Allow b)))"
  using Allow_tokens_le [of b] by (simp add: Allow_frame)

lemma step_capped:
  assumes "sint (tokens (bucket s)) \<le> sint (capacity (bucket s))"
  shows "sint (tokens (bucket (step e s))) \<le> sint (capacity (bucket (step e s)))"
proof (cases e)
  case CallAllow
  then show ?thesis using assms by (simp add: Allow_capped)
next
  case TickerFires
  then show ?thesis
    using assms refill_tick_le_capacity [of "bucket s"] by (simp add: refill_tick_frame)
next
  case StopSend
  then show ?thesis using assms by simp
next
  case StopRecv
  then show ?thesis using assms by simp
qed

lemma run_capped:
  assumes "sint (tokens (bucket s)) \<le> sint (capacity (bucket s))"
  shows "sint (tokens (bucket (run es s))) \<le> sint (capacity (bucket (run es s)))"
  using assms by (induction es arbitrary: s) (simp_all add: step_capped)

text \<open>
  C1 (as amended). Every bucket that the constructor returns starts with
  \<open>tokens = capacity\<close>, and after every sequence of events (calls of \<^verbatim>\<open>Allow\<close>, ticks, and
  the two halves of \<^verbatim>\<open>Stop\<close>) \<open>capacity\<close> is unchanged and \<open>tokens \<le> capacity\<close>. When moreover
  \<open>capacity > 0\<close>, \<open>rate > 0\<close> and the sum \<open>capacity + rate\<close> still fits \<^verbatim>\<open>int64\<close> (it is below
  \<open>2^63\<close>), \<open>0 \<le> tokens\<close> holds after every such sequence as well.
\<close>

theorem tokens_within_capacity:
  assumes "NewTokenBucket r c i = Inr s0"
  shows "tokens (bucket s0) = c \<and> capacity (bucket (run es s0)) = c \<and>
         sint (tokens (bucket (run es s0))) \<le> sint c \<and>
         (0 < sint c \<and> 0 < sint r \<and> sint c + sint r < 2 ^ 63 \<longrightarrow>
            0 \<le> sint (tokens (bucket (run es s0))))"
proof -
  from assms have s0: "bucket s0 = \<lparr>capacity = c, tokens = c, rate = r, interval = i\<rparr>"
    by (auto simp: NewTokenBucket_def split: if_splits)
  have cap: "capacity (bucket (run es s0)) = c" by (simp add: run_frame s0)
  have "sint (tokens (bucket s0)) \<le> sint (capacity (bucket s0))" by (simp add: s0)
  then have "sint (tokens (bucket (run es s0))) \<le> sint (capacity (bucket (run es s0)))"
    by (rule run_capped)
  then have le: "sint (tokens (bucket (run es s0))) \<le> sint c" by (simp add: cap)
  have "0 \<le> sint (tokens (bucket (run es s0)))"
    if "0 < sint c" and "0 < sint r" and "sint c + sint r < 2 ^ 63"
  proof -
    have "within (bucket s0)" using that(1) by (simp add: s0 within_def)
    moreover have "no_overflow (bucket s0)" using that(2,3) by (simp add: s0 no_overflow_def)
    ultimately have "within (bucket (run es s0))" using run_within by blast
    then show ?thesis by (simp add: within_def)
  qed
  with le cap show ?thesis by (simp add: s0)
qed

theorem tokens_within_capacity_witness:
  "NewTokenBucket 1 10 2 =
     Inr \<lparr>bucket = \<lparr>capacity = 10, tokens = 10, rate = 1, interval = 2\<rparr>,
          ticker_running = True, refill_proc = AtSelect, stop_senders = 0\<rparr> \<and>
   0 < sint (10 :: int64) \<and> 0 < sint (1 :: int64) \<and> sint (10 :: int64) + sint (1 :: int64) < 2 ^ 63 \<and>
   0 \<le> sint (tokens (bucket (run [CallAllow, CallAllow, TickerFires, TickerFires, CallAllow]
     \<lparr>bucket = \<lparr>capacity = 10, tokens = 10, rate = 1, interval = 2\<rparr>,
          ticker_running = True, refill_proc = AtSelect, stop_senders = 0\<rparr>))) \<and>
   sint (tokens (bucket (run [CallAllow, CallAllow, TickerFires, TickerFires, CallAllow]
     \<lparr>bucket = \<lparr>capacity = 10, tokens = 10, rate = 1, interval = 2\<rparr>,
          ticker_running = True, refill_proc = AtSelect, stop_senders = 0\<rparr>))) \<le> 10"
proof -
  have c: "NewTokenBucket 1 10 2 =
     Inr \<lparr>bucket = \<lparr>capacity = 10, tokens = 10, rate = 1, interval = 2\<rparr>,
          ticker_running = True, refill_proc = AtSelect, stop_senders = 0\<rparr>"
    by (simp add: NewTokenBucket_def)
  have h: "0 < sint (10 :: int64) \<and> 0 < sint (1 :: int64) \<and>
    sint (10 :: int64) + sint (1 :: int64) < 2 ^ 63"
    by simp
  show ?thesis
    using c h tokens_within_capacity [OF c, of "[CallAllow, CallAllow, TickerFires, TickerFires, CallAllow]"]
    by (simp del: run.simps)
qed

text \<open>
  Without the bound on \<open>capacity + rate\<close> the invariant fails: a fresh bucket with
  \<open>capacity = 2^63 - 1\<close> and \<open>rate = 1\<close> holds \<open>tokens = - 2^63\<close> after its first tick.
\<close>

theorem tokens_invariant_overflow_counterexample:
  "0 < sint (0x7FFFFFFFFFFFFFFF :: int64) \<and> 0 < sint (1 :: int64) \<and>
   NewTokenBucket 1 0x7FFFFFFFFFFFFFFF 1 =
     Inr \<lparr>bucket = \<lparr>capacity = 0x7FFFFFFFFFFFFFFF, tokens = 0x7FFFFFFFFFFFFFFF, rate = 1, interval = 1\<rparr>,
          ticker_running = True, refill_proc = AtSelect, stop_senders = 0\<rparr> \<and>
   sint (tokens (bucket (run [TickerFires]
      \<lparr>bucket = \<lparr>capacity = 0x7FFFFFFFFFFFFFFF, tokens = 0x7FFFFFFFFFFFFFFF, rate = 1, interval = 1\<rparr>,
          ticker_running = True, refill_proc = AtSelect, stop_senders = 0\<rparr>))) = - 9223372036854775808"
  by (simp add: NewTokenBucket_def refill_tick_def Let_def)

section \<open>Burst and refill\<close>

lemma allow_n_Suc:
  "allow_n (Suc n) b =
     (fst (Allow b) # fst (allow_n n (snd (Allow b))), snd (allow_n n (snd (Allow b))))"
  by (simp add: split_def Let_def)

declare allow_n.simps(2) [simp del]

lemma allow_n_add:
  "allow_n (m + n) b =
     (fst (allow_n m b) @ fst (allow_n n (snd (allow_n m b))), snd (allow_n n (snd (allow_n m b))))"
  by (induction m arbitrary: b) (simp_all add: allow_n_Suc)

lemma allow_n_admits_all:
  "int n \<le> sint (tokens b) \<Longrightarrow>
     fst (allow_n n b) = replicate n True \<and>
     sint (tokens (snd (allow_n n b))) = sint (tokens b) - int n"
proof (induction n arbitrary: b)
  case 0
  then show ?case by simp
next
  case (Suc n)
  from Suc.prems have pos: "0 < sint (tokens b)" by simp
  then have a: "Allow b = (True, b\<lparr>tokens := tokens b - 1\<rparr>)" by (simp add: Allow_def)
  have t: "sint (tokens (b\<lparr>tokens := tokens b - 1\<rparr>)) = sint (tokens b) - 1"
    using pos by (simp add: sint_dec_pos)
  with Suc.prems have "int n \<le> sint (tokens (b\<lparr>tokens := tokens b - 1\<rparr>))" by simp
  from Suc.IH [OF this] t show ?case by (simp add: a allow_n_Suc)
qed

lemma allow_n_rejects_all:
  "sint (tokens b) \<le> 0 \<Longrightarrow> allow_n n b = (replicate n False, b)"
  by (induction n) (simp_all add: Allow_def allow_n_Suc)

lemma allow_n_drain:
  assumes "0 \<le> sint (tokens b)"
  shows "fst (allow_n (Suc (nat (sint (tokens b)))) b) = replicate (nat (sint (tokens b))) True @ [False]"
proof -
  let ?k = "nat (sint (tokens b))"
  have k: "int ?k \<le> sint (tokens b)" using assms by simp
  have "sint (tokens (snd (allow_n ?k b))) = 0"
    using allow_n_admits_all [OF k] assms by simp
  then have "allow_n (Suc 0) (snd (allow_n ?k b)) = ([False], snd (allow_n ?k b))"
    using allow_n_rejects_all [of "snd (allow_n ?k b)" "Suc 0"] by simp
  moreover have "allow_n (Suc ?k) b = allow_n (?k + Suc 0) b" by simp
  ultimately show ?thesis
    using allow_n_admits_all [OF k] by (simp only: allow_n_add fst_conv)
qed

text \<open>
  Consecutive calls and consecutive ticks on the bucket are the runs of the system that
  consist of these events only.
\<close>

lemma admits_replicate_Allow:
  "admits (replicate n CallAllow) s = fst (allow_n n (bucket s)) \<and>
   bucket (run (replicate n CallAllow) s) = snd (allow_n n (bucket s))"
  by (induction n arbitrary: s) (simp_all add: allow_n_Suc)

lemma run_replicate_Tick:
  "refill_proc s = AtSelect \<Longrightarrow> ticker_running s \<Longrightarrow>
     bucket (run (replicate n TickerFires) s) = ticks n (bucket s)"
  by (induction n arbitrary: s) simp_all

text \<open>
  C4. On a bucket fresh from the constructor with capacity \<open>C > 0\<close>, with no tick in between,
  the first \<open>C\<close> consecutive calls of \<^verbatim>\<open>Allow\<close> each return true and call number \<open>C + 1\<close>
  returns false (stated for the calls on the struct and for the run of the system that
  makes them).
\<close>

theorem burst_of_capacity:
  assumes "NewTokenBucket r c i = Inr s0" and "0 < sint c"
  shows "tokens (bucket s0) = c \<and>
         fst (allow_n (Suc (nat (sint c))) (bucket s0)) = replicate (nat (sint c)) True @ [False] \<and>
         admits (replicate (Suc (nat (sint c))) CallAllow) s0 = replicate (nat (sint c)) True @ [False]"
proof -
  from assms(1) have s0: "bucket s0 = \<lparr>capacity = c, tokens = c, rate = r, interval = i\<rparr>"
    by (auto simp: NewTokenBucket_def split: if_splits)
  have "0 \<le> sint (tokens (bucket s0))" using assms(2) by (simp add: s0)
  from allow_n_drain [OF this] show ?thesis
    by (simp only: admits_replicate_Allow) (simp add: s0)
qed

theorem burst_of_capacity_witness:
  "NewTokenBucket 1 3 2 =
     Inr \<lparr>bucket = \<lparr>capacity = 3, tokens = 3, rate = 1, interval = 2\<rparr>,
          ticker_running = True, refill_proc = AtSelect, stop_senders = 0\<rparr> \<and>
   0 < sint (3 :: int64) \<and>
   fst (allow_n 4 \<lparr>capacity = 3, tokens = 3, rate = 1, interval = 2\<rparr>) = [True, True, True, False]"
proof -
  have c: "NewTokenBucket 1 3 2 =
     Inr \<lparr>bucket = \<lparr>capacity = 3, tokens = 3, rate = 1, interval = 2\<rparr>,
          ticker_running = True, refill_proc = AtSelect, stop_senders = 0\<rparr>"
    by (simp add: NewTokenBucket_def)
  have h: "0 < sint (3 :: int64)" by simp
  have n: "Suc (nat (sint (3 :: int64))) = 4" "replicate (nat (sint (3 :: int64))) True = [True, True, True]"
    by (simp_all add: numeral_eq_Suc)
  show ?thesis
    using c h burst_of_capacity [OF c h] unfolding n by simp
qed

text \<open>
  C5. For a bucket with \<open>capacity > 0\<close>, \<open>rate > 0\<close> and \<open>tokens = 0\<close>, one tick leaves
  \<open>tokens = min rate capacity\<close>, and of the calls of \<^verbatim>\<open>Allow\<close> that follow it exactly the
  first \<open>min rate capacity\<close> return true; the next one returns false.
\<close>

theorem refill_after_exhaustion:
  assumes "0 < sint (capacity b)" and "0 < sint (rate b)" and "tokens b = 0"
  shows "sint (tokens (refill_tick b)) = min (sint (rate b)) (sint (capacity b)) \<and>
         fst (allow_n (Suc (nat (min (sint (rate b)) (sint (capacity b))))) (refill_tick b)) =
           replicate (nat (min (sint (rate b)) (sint (capacity b)))) True @ [False]"
proof -
  have t: "sint (tokens (refill_tick b)) = min (sint (rate b)) (sint (capacity b))"
    using assms(3) by (simp add: refill_tick_min_wrapped)
  then have "0 \<le> sint (tokens (refill_tick b))" using assms(1,2) by simp
  from allow_n_drain [OF this] show ?thesis by (simp add: t)
qed

theorem refill_after_exhaustion_witness:
  "0 < sint (capacity \<lparr>capacity = 10, tokens = 0, rate = 2, interval = 2\<rparr>) \<and>
   0 < sint (rate \<lparr>capacity = 10, tokens = 0, rate = 2, interval = 2\<rparr>) \<and>
   tokens \<lparr>capacity = 10, tokens = 0, rate = 2, interval = 2\<rparr> = 0 \<and>
   fst (allow_n 3 (refill_tick \<lparr>capacity = 10, tokens = 0, rate = 2, interval = 2\<rparr>)) =
     [True, True, False]"
proof -
  let ?b = "\<lparr>capacity = 10, tokens = 0, rate = 2, interval = 2 :: int64\<rparr>"
  have h: "0 < sint (capacity ?b)" "0 < sint (rate ?b)" "tokens ?b = 0" by simp_all
  have n: "Suc (nat (min (sint (rate ?b)) (sint (capacity ?b)))) = 3"
    "replicate (nat (min (sint (rate ?b)) (sint (capacity ?b)))) True = [True, True]"
    by (simp_all add: numeral_eq_Suc)
  show ?thesis
    using h refill_after_exhaustion [OF h] unfolding n by simp
qed

section \<open>An idle bucket\<close>

lemma ticks_frame:
  "capacity (ticks n b) = capacity b \<and> rate (ticks n b) = rate b \<and> interval (ticks n b) = interval b"
  by (induction n arbitrary: b) (simp_all add: refill_tick_frame)

lemma ticks_capped:
  "sint (tokens b) \<le> sint (capacity b) \<Longrightarrow> sint (tokens (ticks n b)) \<le> sint (capacity b)"
proof (induction n arbitrary: b)
  case 0
  then show ?case by simp
next
  case (Suc n)
  have "sint (tokens (refill_tick b)) \<le> sint (capacity (refill_tick b))"
    by (simp add: refill_tick_le_capacity refill_tick_frame)
  from Suc.IH [OF this] show ?case by (simp add: refill_tick_frame)
qed

lemma ticks_exact:
  assumes "within b" and "no_overflow b"
  shows "sint (tokens (ticks n b)) = min (sint (tokens b) + int n * sint (rate b)) (sint (capacity b))"
  using assms
proof (induction n arbitrary: b)
  case 0
  then show ?case by (simp add: within_def)
next
  case (Suc n)
  have w: "within (refill_tick b)" using Suc.prems by (rule refill_tick_within)
  have o: "no_overflow (refill_tick b)" using Suc.prems by (simp add: refill_tick_no_overflow)
  have r: "0 \<le> int n * sint (rate b)" using Suc.prems(2) by (simp add: no_overflow_def)
  have "sint (tokens (ticks (Suc n) b)) =
      min (min (sint (tokens b) + sint (rate b)) (sint (capacity b)) + int n * sint (rate b))
        (sint (capacity b))"
    using Suc.IH [OF w o] refill_tick_exact [OF Suc.prems] by (simp add: refill_tick_frame)
  also have "\<dots> = min (sint (tokens b) + int (Suc n) * sint (rate b)) (sint (capacity b))"
    using r by (simp add: min_def algebra_simps)
  finally show ?case .
qed

lemma div_less_mult:
  fixes c r k :: int
  assumes "0 < r" and "c div r < k"
  shows "c < k * r"
proof -
  have "(c div r) * r + c mod r = c" by simp
  moreover have "c mod r < r" using assms(1) by simp
  ultimately have "c < (c div r) * r + r" by linarith
  also have "\<dots> = (c div r + 1) * r" by (simp add: algebra_simps)
  also have "\<dots> \<le> k * r" using assms by (intro mult_right_mono) simp_all
  finally show ?thesis .
qed

text \<open>
  C6 (as amended). From any state with \<open>tokens \<le> capacity\<close>, \<open>tokens\<close> does not exceed
  \<open>capacity\<close> after any number \<open>N\<close> of consecutive ticks. For a bucket with \<open>capacity > 0\<close>,
  \<open>rate > 0\<close>, \<open>0 \<le> tokens \<le> capacity\<close> and \<open>capacity + rate\<close> below \<open>2^63\<close>, \<open>tokens\<close> equals
  \<open>capacity\<close> after \<open>N\<close> consecutive ticks for every \<open>N\<close> above \<open>capacity div rate\<close>.
\<close>

theorem idle_bucket_fills_to_capacity:
  "(sint (tokens b) \<le> sint (capacity b) \<longrightarrow> sint (tokens (ticks n b)) \<le> sint (capacity b)) \<and>
   (0 < sint (capacity b) \<and> 0 < sint (rate b) \<and> sint (capacity b) + sint (rate b) < 2 ^ 63 \<and>
    0 \<le> sint (tokens b) \<and> sint (tokens b) \<le> sint (capacity b) \<and>
    sint (capacity b) div sint (rate b) < int n \<longrightarrow> tokens (ticks n b) = capacity b)"
proof -
  have "tokens (ticks n b) = capacity b"
    if "0 < sint (rate b)" and "sint (capacity b) + sint (rate b) < 2 ^ 63"
      and "0 \<le> sint (tokens b)" and "sint (tokens b) \<le> sint (capacity b)"
      and "sint (capacity b) div sint (rate b) < int n"
  proof -
    have w: "within b" using that(3,4) by (simp add: within_def)
    have o: "no_overflow b" using that(1,2) by (simp add: no_overflow_def)
    have "sint (capacity b) < int n * sint (rate b)"
      using that(1,5) by (rule div_less_mult)
    with that(3) have "sint (tokens (ticks n b)) = sint (capacity b)"
      by (simp add: ticks_exact [OF w o])
    then show ?thesis by (rule signed_word_eqI)
  qed
  then show ?thesis using ticks_capped [of b n] by blast
qed

theorem idle_bucket_fills_to_capacity_witness:
  "0 < sint (capacity \<lparr>capacity = 10, tokens = 4, rate = 3, interval = 2\<rparr>) \<and>
   0 < sint (rate \<lparr>capacity = 10, tokens = 4, rate = 3, interval = 2\<rparr>) \<and>
   sint (10 :: int64) + sint (3 :: int64) < 2 ^ 63 \<and>
   0 \<le> sint (4 :: int64) \<and> sint (4 :: int64) \<le> sint (10 :: int64) \<and>
   sint (10 :: int64) div sint (3 :: int64) < int 4 \<and>
   tokens (ticks 4 \<lparr>capacity = 10, tokens = 4, rate = 3, interval = 2\<rparr>) = 10"
proof -
  let ?b = "\<lparr>capacity = 10, tokens = 4, rate = 3, interval = 2 :: int64\<rparr>"
  have h: "0 < sint (capacity ?b) \<and> 0 < sint (rate ?b) \<and>
    sint (capacity ?b) + sint (rate ?b) < 2 ^ 63 \<and>
    0 \<le> sint (tokens ?b) \<and> sint (tokens ?b) \<le> sint (capacity ?b) \<and>
    sint (capacity ?b) div sint (rate ?b) < int 4"
    by simp
  show ?thesis
    using h idle_bucket_fills_to_capacity [of ?b 4] by simp
qed

text \<open>
  Without the bound on \<open>capacity + rate\<close> the sum wraps around: with
  \<open>capacity = rate = 2^63 - 1\<close> and \<open>tokens = 1\<close> the first tick computes \<open>2^63\<close>, which is
  \<open>- 2^63\<close> in \<^verbatim>\<open>int64\<close>, and after two ticks (\<open>2 > capacity div rate = 1\<close>) \<open>tokens\<close> is
  \<open>- 1\<close>, not \<open>capacity\<close>.
\<close>

theorem idle_bucket_overflow_counterexample:
  "0 < sint (capacity \<lparr>capacity = 0x7FFFFFFFFFFFFFFF, tokens = 1, rate = 0x7FFFFFFFFFFFFFFF, interval = 1\<rparr>) \<and>
   0 < sint (rate \<lparr>capacity = 0x7FFFFFFFFFFFFFFF, tokens = 1, rate = 0x7FFFFFFFFFFFFFFF, interval = 1\<rparr>) \<and>
   0 \<le> sint (1 :: int64) \<and> sint (1 :: int64) \<le> sint (0x7FFFFFFFFFFFFFFF :: int64) \<and>
   sint (0x7FFFFFFFFFFFFFFF :: int64) div sint (0x7FFFFFFFFFFFFFFF :: int64) < int 2 \<and>
   sint (tokens (ticks 2 \<lparr>capacity = 0x7FFFFFFFFFFFFFFF, tokens = 1, rate = 0x7FFFFFFFFFFFFFFF, interval = 1\<rparr>)) = - 1 \<and>
   tokens (ticks 2 \<lparr>capacity = 0x7FFFFFFFFFFFFFFF, tokens = 1, rate = 0x7FFFFFFFFFFFFFFF, interval = 1\<rparr>) \<noteq>
     capacity \<lparr>capacity = 0x7FFFFFFFFFFFFFFF, tokens = 1, rate = 0x7FFFFFFFFFFFFFFF, interval = 1\<rparr>"
  by code_simp

section \<open>The replenishment tick\<close>

lemma step_tokens_increase:
  assumes "sint (tokens (bucket s)) < sint (tokens (bucket (step e s)))"
  shows "e = TickerFires \<and> refill_proc s = AtSelect \<and> ticker_running s"
proof (cases e)
  case CallAllow
  with assms Allow_tokens_le [of "bucket s"] show ?thesis by simp
next
  case TickerFires
  with assms show ?thesis by (auto split: if_splits)
next
  case StopSend
  with assms show ?thesis by simp
next
  case StopRecv
  with assms show ?thesis by (simp split: if_splits)
qed

text \<open>
  C3 (as amended). For every bucket state one tick sets \<open>tokens\<close> to the smaller of
  \<open>capacity\<close> and the \<^verbatim>\<open>int64\<close> wrap-around sum of \<open>tokens\<close> and \<open>rate\<close>; this is
  \<open>min (tokens + rate) capacity\<close> whenever the exact sum lies in the \<^verbatim>\<open>int64\<close> range. After a
  tick \<open>tokens\<close> never exceeds \<open>capacity\<close>. \<^verbatim>\<open>Allow\<close> never raises \<open>tokens\<close>, the only event
  that can raise it is a tick, \<^verbatim>\<open>Stop\<close> leaves it alone, and construction sets it to
  \<open>capacity\<close>.
\<close>

theorem tick_is_capped_wrapping_sum:
  "sint (tokens (refill_tick b)) = min (sint (tokens b + rate b)) (sint (capacity b)) \<and>
   (- (2 ^ 63) \<le> sint (tokens b) + sint (rate b) \<and> sint (tokens b) + sint (rate b) < 2 ^ 63 \<longrightarrow>
      sint (tokens (refill_tick b)) = min (sint (tokens b) + sint (rate b)) (sint (capacity b))) \<and>
   sint (tokens (refill_tick b)) \<le> sint (capacity b) \<and>
   sint (tokens (snd (Allow b))) \<le> sint (tokens b) \<and>
   (sint (tokens (bucket s)) < sint (tokens (bucket (step e s))) \<longrightarrow> e = TickerFires) \<and>
   tokens (bucket (step StopSend s)) = tokens (bucket s) \<and>
   tokens (bucket (step StopRecv s)) = tokens (bucket s) \<and>
   (NewTokenBucket r c i = Inr s0 \<longrightarrow> tokens (bucket s0) = c)"
proof -
  have "tokens (bucket s0) = c" if "NewTokenBucket r c i = Inr s0"
    using that by (auto simp: NewTokenBucket_def split: if_splits)
  moreover have "e = TickerFires" if "sint (tokens (bucket s)) < sint (tokens (bucket (step e s)))"
    using step_tokens_increase [OF that] by simp
  ultimately show ?thesis
    using refill_tick_min_exact [of b]
    by (simp add: refill_tick_min_wrapped refill_tick_le_capacity Allow_tokens_le)
qed

theorem tick_is_capped_wrapping_sum_witness:
  "- (2 ^ 63) \<le> sint (7 :: int64) + sint (5 :: int64) \<and> sint (7 :: int64) + sint (5 :: int64) < 2 ^ 63 \<and>
   sint (tokens (refill_tick \<lparr>capacity = 10, tokens = 7, rate = 5, interval = 2\<rparr>)) = 10 \<and>
   sint (tokens (bucket \<lparr>bucket = \<lparr>capacity = 10, tokens = 7, rate = 5, interval = 2\<rparr>,
          ticker_running = True, refill_proc = AtSelect, stop_senders = 0\<rparr>)) <
   sint (tokens (bucket (step TickerFires \<lparr>bucket = \<lparr>capacity = 10, tokens = 7, rate = 5, interval = 2\<rparr>,
          ticker_running = True, refill_proc = AtSelect, stop_senders = 0\<rparr>))) \<and>
   NewTokenBucket 5 10 2 = Inr \<lparr>bucket = \<lparr>capacity = 10, tokens = 10, rate = 5, interval = 2\<rparr>,
          ticker_running = True, refill_proc = AtSelect, stop_senders = 0\<rparr>"
proof -
  let ?b = "\<lparr>capacity = 10, tokens = 7, rate = 5, interval = 2 :: int64\<rparr>"
  let ?s = "\<lparr>bucket = ?b, ticker_running = True, refill_proc = AtSelect, stop_senders = 0\<rparr>"
  let ?init = "\<lparr>bucket = \<lparr>capacity = 10, tokens = 10, rate = 5, interval = 2 :: int64\<rparr>,
          ticker_running = True, refill_proc = AtSelect, stop_senders = 0\<rparr>"
  have c: "NewTokenBucket 5 10 2 = Inr ?init" by (simp add: NewTokenBucket_def)
  have t: "sint (tokens (bucket ?s)) < sint (tokens (bucket (step TickerFires ?s)))"
    by (simp add: refill_tick_def Let_def)
  show ?thesis
    using c t tick_is_capped_wrapping_sum [of ?b ?s TickerFires 5 10 2 ?init] by simp
qed

text \<open>
  With the exact sum the statement fails where the addition overflows: at
  \<open>tokens = capacity = 2^63 - 1\<close> and \<open>rate = 1\<close> the tick leaves \<open>tokens = - 2^63\<close>, while
  \<open>min (tokens + rate) capacity\<close> is \<open>2^63 - 1\<close>.
\<close>

theorem tick_exact_sum_counterexample:
  "sint (tokens (refill_tick \<lparr>capacity = 0x7FFFFFFFFFFFFFFF, tokens = 0x7FFFFFFFFFFFFFFF, rate = 1, interval = 1\<rparr>)) =
     - 9223372036854775808 \<and>
   min (sint (tokens \<lparr>capacity = 0x7FFFFFFFFFFFFFFF, tokens = 0x7FFFFFFFFFFFFFFF, rate = 1, interval = 1 :: int64\<rparr>) +
        sint (rate \<lparr>capacity = 0x7FFFFFFFFFFFFFFF, tokens = 0x7FFFFFFFFFFFFFFF, rate = 1, interval = 1 :: int64\<rparr>))
       (sint (capacity \<lparr>capacity = 0x7FFFFFFFFFFFFFFF, tokens = 0x7FFFFFFFFFFFFFFF, rate = 1, interval = 1 :: int64\<rparr>)) =
     9223372036854775807 \<and>
   sint (tokens (refill_tick \<lparr>capacity = 0x7FFFFFFFFFFFFFFF, tokens = 0x7FFFFFFFFFFFFFFF, rate = 1, interval = 1\<rparr>)) \<noteq>
   min (sint (tokens \<lparr>capacity = 0x7FFFFFFFFFFFFFFF, tokens = 0x7FFFFFFFFFFFFFFF, rate = 1, interval = 1 :: int64\<rparr>) +
        sint (rate \<lparr>capacity = 0x7FFFFFFFFFFFFFFF, tokens = 0x7FFFFFFFFFFFFFFF, rate = 1, interval = 1 :: int64\<rparr>))
       (sint (capacity \<lparr>capacity = 0x7FFFFFFFFFFFFFFF, tokens = 0x7FFFFFFFFFFFFFFF, rate = 1, interval = 1 :: int64\<rparr>))"
  by code_simp

section \<open>Shutdown\<close>

lemma step_Returned: "refill_proc s = Returned \<Longrightarrow> refill_proc (step e s) = Returned"
  by (cases e) simp_all

lemma run_Returned: "refill_proc s = Returned \<Longrightarrow> refill_proc (run es s) = Returned"
  by (induction es arbitrary: s) (simp_all add: step_Returned)

lemma step_tokens_le_Returned:
  assumes "refill_proc s = Returned"
  shows "sint (tokens (bucket (step e s))) \<le> sint (tokens (bucket s))"
proof (rule ccontr)
  assume "\<not> sint (tokens (bucket (step e s))) \<le> sint (tokens (bucket s))"
  then have "sint (tokens (bucket s)) < sint (tokens (bucket (step e s)))" by simp
  from step_tokens_increase [OF this] assms show False by simp
qed

lemma run_tokens_le_Returned:
  assumes "refill_proc s = Returned"
  shows "sint (tokens (bucket (run es s))) \<le> sint (tokens (bucket s))"
  using assms
proof (induction es arbitrary: s)
  case Nil
  then show ?case by simp
next
  case (Cons e es)
  have "sint (tokens (bucket (run es (step e s)))) \<le> sint (tokens (bucket (step e s)))"
    using Cons.prems by (intro Cons.IH step_Returned)
  also have "\<dots> \<le> sint (tokens (bucket s))"
    using Cons.prems by (rule step_tokens_le_Returned)
  finally show ?case by simp
qed

lemma admits_append: "admits (es @ fs) s = admits es s @ admits fs (run es s)"
proof (induction es arbitrary: s)
  case Nil
  then show ?case by simp
next
  case (Cons e es)
  then show ?case by (cases e) simp_all
qed

text \<open>
  C7. Once the goroutine has taken the shutdown branch of its \<^verbatim>\<open>select\<close> (a pending
  \<^verbatim>\<open>Stop\<close> is served), it has returned and stays so; the bucket itself is untouched by the
  shutdown; along every later sequence of events \<open>tokens\<close> never goes up; and in every later
  state a call of \<^verbatim>\<open>Allow\<close> still answers \<open>tokens > 0\<close>, taking one token when it admits and
  changing nothing when it rejects.
\<close>

theorem no_refill_after_shutdown:
  assumes "refill_proc s = AtSelect" and "0 < stop_senders s"
  shows "refill_proc (step StopRecv s) = Returned \<and>
         stop_senders (step StopRecv s) = stop_senders s - 1 \<and>
         bucket (step StopRecv s) = bucket s \<and>
         refill_proc (run es (step StopRecv s)) = Returned \<and>
         sint (tokens (bucket (run (es @ fs) (step StopRecv s)))) \<le>
           sint (tokens (bucket (run es (step StopRecv s)))) \<and>
         admits (es @ [CallAllow]) (step StopRecv s) =
           admits es (step StopRecv s) @ [0 < sint (tokens (bucket (run es (step StopRecv s))))] \<and>
         bucket (run (es @ [CallAllow]) (step StopRecv s)) =
           (if 0 < sint (tokens (bucket (run es (step StopRecv s))))
            then (bucket (run es (step StopRecv s)))
                   \<lparr>tokens := tokens (bucket (run es (step StopRecv s))) - 1\<rparr>
            else bucket (run es (step StopRecv s)))"
proof -
  let ?t = "step StopRecv s"
  have r: "refill_proc ?t = Returned" using assms by simp
  have r': "refill_proc (run es ?t) = Returned" using r by (rule run_Returned)
  have "sint (tokens (bucket (run fs (run es ?t)))) \<le> sint (tokens (bucket (run es ?t)))"
    using r' by (rule run_tokens_le_Returned)
  then have mono: "sint (tokens (bucket (run (es @ fs) ?t))) \<le> sint (tokens (bucket (run es ?t)))"
    by (simp add: run_append)
  have a: "admits (es @ [CallAllow]) ?t = admits es ?t @ [0 < sint (tokens (bucket (run es ?t)))]"
    by (simp add: admits_append Allow_def)
  have b: "bucket (run (es @ [CallAllow]) ?t) =
           (if 0 < sint (tokens (bucket (run es ?t)))
            then (bucket (run es ?t))\<lparr>tokens := tokens (bucket (run es ?t)) - 1\<rparr>
            else bucket (run es ?t))"
    by (simp add: run_append Allow_def)
  have c: "stop_senders ?t = stop_senders s - 1 \<and> bucket ?t = bucket s" using assms by simp
  from r r' mono a b c show ?thesis by blast
qed

theorem no_refill_after_shutdown_witness:
  "NewTokenBucket 1 2 5 =
     Inr \<lparr>bucket = \<lparr>capacity = 2, tokens = 2, rate = 1, interval = 5\<rparr>,
          ticker_running = True, refill_proc = AtSelect, stop_senders = 0\<rparr> \<and>
   run [CallAllow, StopSend] \<lparr>bucket = \<lparr>capacity = 2, tokens = 2, rate = 1, interval = 5\<rparr>,
          ticker_running = True, refill_proc = AtSelect, stop_senders = 0\<rparr> =
     \<lparr>bucket = \<lparr>capacity = 2, tokens = 1, rate = 1, interval = 5\<rparr>,
          ticker_running = True, refill_proc = AtSelect, stop_senders = 1\<rparr> \<and>
   refill_proc (run [TickerFires, TickerFires] (step StopRecv
     \<lparr>bucket = \<lparr>capacity = 2, tokens = 1, rate = 1, interval = 5\<rparr>,
          ticker_running = True, refill_proc = AtSelect, stop_senders = 1\<rparr>)) = Returned \<and>
   admits ([TickerFires, TickerFires] @ [CallAllow]) (step StopRecv
     \<lparr>bucket = \<lparr>capacity = 2, tokens = 1, rate = 1, interval = 5\<rparr>,
          ticker_running = True, refill_proc = AtSelect, stop_senders = 1\<rparr>) = [True] \<and>
   sint (tokens (bucket (run ([TickerFires, TickerFires] @ [CallAllow, TickerFires, CallAllow]) (step StopRecv
     \<lparr>bucket = \<lparr>capacity = 2, tokens = 1, rate = 1, interval = 5\<rparr>,
          ticker_running = True, refill_proc = AtSelect, stop_senders = 1\<rparr>)))) \<le> 1"
proof -
  let ?pre = "\<lparr>bucket = \<lparr>capacity = 2, tokens = 1, rate = 1, interval = 5 :: int64\<rparr>,
          ticker_running = True, refill_proc = AtSelect, stop_senders = 1\<rparr>"
  have c: "NewTokenBucket 1 2 5 =
     Inr \<lparr>bucket = \<lparr>capacity = 2, tokens = 2, rate = 1, interval = 5\<rparr>,
          ticker_running = True, refill_proc = AtSelect, stop_senders = 0\<rparr>"
    by (simp add: NewTokenBucket_def)
  have p: "run [CallAllow, StopSend] \<lparr>bucket = \<lparr>capacity = 2, tokens = 2, rate = 1, interval = 5\<rparr>,
          ticker_running = True, refill_proc = AtSelect, stop_senders = 0\<rparr> = ?pre"
    by (simp add: Allow_def)
  have h: "refill_proc ?pre = AtSelect" "0 < stop_senders ?pre" by simp_all
  show ?thesis
    using c p no_refill_after_shutdown [OF h, of "[TickerFires, TickerFires]" "[CallAllow, TickerFires, CallAllow]"]
    by (simp add: Allow_def)
qed

section \<open>Frame\<close>

lemma Allow_only_tokens: "snd (Allow b) = b\<lparr>tokens := tokens (snd (Allow b))\<rparr>"
  by (simp add: Allow_def)

lemma refill_tick_only_tokens: "refill_tick b = b\<lparr>tokens := tokens (refill_tick b)\<rparr>"
  by (simp add: refill_tick_def Let_def)

lemma step_only_tokens: "bucket (step e s) = (bucket s)\<lparr>tokens := tokens (bucket (step e s))\<rparr>"
proof (cases e)
  case CallAllow
  then show ?thesis using Allow_only_tokens [of "bucket s"] by simp
next
  case TickerFires
  then show ?thesis using refill_tick_only_tokens [of "bucket s"] by simp
next
  case StopSend
  then show ?thesis by simp
next
  case StopRecv
  then show ?thesis by simp
qed

lemma run_only_tokens: "bucket (run es s) = (bucket s)\<lparr>tokens := tokens (bucket (run es s))\<rparr>"
proof (induction es arbitrary: s)
  case Nil
  then show ?case by simp
next
  case (Cons e es)
  have "bucket (run (e # es) s) = (bucket (step e s))\<lparr>tokens := tokens (bucket (run (e # es) s))\<rparr>"
    using Cons.IH [of "step e s"] by simp
  also have "\<dots> = (bucket s)\<lparr>tokens := tokens (bucket (run (e # es) s))\<rparr>"
    by (subst step_only_tokens) simp
  finally show ?case .
qed

text \<open>
  C8. \<^verbatim>\<open>Allow\<close>, the tick and both halves of \<^verbatim>\<open>Stop\<close> leave every field of the struct but
  \<open>tokens\<close> as it was, so \<open>capacity\<close>, \<open>rate\<close> and \<open>interval\<close> keep the values the
  constructor gave them through every sequence of events; and a call of \<^verbatim>\<open>Allow\<close> that
  returns false leaves \<open>tokens\<close> as it was too.
\<close>

theorem only_tokens_is_mutable:
  "snd (Allow b) = b\<lparr>tokens := tokens (snd (Allow b))\<rparr> \<and>
   (\<not> fst (Allow b) \<longrightarrow> snd (Allow b) = b) \<and>
   refill_tick b = b\<lparr>tokens := tokens (refill_tick b)\<rparr> \<and>
   bucket (step StopSend s) = bucket s \<and> bucket (step StopRecv s) = bucket s \<and>
   bucket (step e s) = (bucket s)\<lparr>tokens := tokens (bucket (step e s))\<rparr> \<and>
   bucket (run es s) = (bucket s)\<lparr>tokens := tokens (bucket (run es s))\<rparr> \<and>
   capacity (bucket (run es s)) = capacity (bucket s) \<and>
   rate (bucket (run es s)) = rate (bucket s) \<and>
   interval (bucket (run es s)) = interval (bucket s) \<and>
   (NewTokenBucket r c i = Inr s0 \<longrightarrow>
      capacity (bucket (run es s0)) = c \<and> rate (bucket (run es s0)) = r \<and>
      interval (bucket (run es s0)) = i)"
proof -
  have "\<not> fst (Allow b) \<longrightarrow> snd (Allow b) = b" by (simp add: Allow_def)
  moreover have "bucket (step StopSend s) = bucket s \<and> bucket (step StopRecv s) = bucket s"
    by simp
  moreover have "capacity (bucket (run es s0)) = c \<and> rate (bucket (run es s0)) = r \<and>
      interval (bucket (run es s0)) = i" if "NewTokenBucket r c i = Inr s0"
  proof -
    from that have "bucket s0 = \<lparr>capacity = c, tokens = c, rate = r, interval = i\<rparr>"
      by (auto simp: NewTokenBucket_def split: if_splits)
    then show ?thesis by (simp add: run_frame)
  qed
  ultimately show ?thesis
    using Allow_only_tokens [of b] refill_tick_only_tokens [of b] step_only_tokens [of e s]
      run_only_tokens [of es s] run_frame [of es s]
    by blast
qed

theorem only_tokens_is_mutable_witness:
  "\<not> fst (Allow \<lparr>capacity = 5, tokens = 0, rate = 2, interval = 7\<rparr>) \<and>
   snd (Allow \<lparr>capacity = 5, tokens = 0, rate = 2, interval = 7\<rparr>) =
     \<lparr>capacity = 5, tokens = 0, rate = 2, interval = 7\<rparr> \<and>
   NewTokenBucket 2 5 7 =
     Inr \<lparr>bucket = \<lparr>capacity = 5, tokens = 5, rate = 2, interval = 7\<rparr>,
          ticker_running = True, refill_proc = AtSelect, stop_senders = 0\<rparr> \<and>
   capacity (bucket (run [CallAllow, CallAllow, CallAllow, TickerFires, StopSend, StopRecv, TickerFires]
     \<lparr>bucket = \<lparr>capacity = 5, tokens = 5, rate = 2, interval = 7\<rparr>,
          ticker_running = True, refill_proc = AtSelect, stop_senders = 0\<rparr>)) = 5 \<and>
   rate (bucket (run [CallAllow, CallAllow, CallAllow, TickerFires, StopSend, StopRecv, TickerFires]
     \<lparr>bucket = \<lparr>capacity = 5, tokens = 5, rate = 2, interval = 7\<rparr>,
          ticker_running = True, refill_proc = AtSelect, stop_senders = 0\<rparr>)) = 2 \<and>
   interval (bucket (run [CallAllow, CallAllow, CallAllow, TickerFires, StopSend, StopRecv, TickerFires]
     \<lparr>bucket = \<lparr>capacity = 5, tokens = 5, rate = 2, interval = 7\<rparr>,
          ticker_running = True, refill_proc = AtSelect, stop_senders = 0\<rparr>)) = 7"
proof -
  let ?b = "\<lparr>capacity = 5, tokens = 0, rate = 2, interval = 7 :: int64\<rparr>"
  let ?init = "\<lparr>bucket = \<lparr>capacity = 5, tokens = 5, rate = 2, interval = 7 :: int64\<rparr>,
          ticker_running = True, refill_proc = AtSelect, stop_senders = 0\<rparr>"
  have c: "NewTokenBucket 2 5 7 = Inr ?init" by (simp add: NewTokenBucket_def)
  have f: "\<not> fst (Allow ?b)" by (simp add: Allow_def)
  show ?thesis
    using c f only_tokens_is_mutable [of ?b ?init CallAllow
        "[CallAllow, CallAllow, CallAllow, TickerFires, StopSend, StopRecv, TickerFires]" 2 5 7 ?init]
    by (simp del: run.simps step.simps)
qed

section \<open>A second \<^verbatim>\<open>Stop\<close>\<close>

lemma step_senders_Returned:
  assumes "refill_proc s = Returned"
  shows "stop_senders (step e s) = stop_senders s + (if e = StopSend then 1 else 0)"
  using assms by (cases e) simp_all

lemma run_senders_Returned:
  assumes "refill_proc s = Returned"
  shows "stop_senders (run es s) = stop_senders s + length (filter (\<lambda>e. e = StopSend) es)"
  using assms
proof (induction es arbitrary: s)
  case Nil
  then show ?case by simp
next
  case (Cons e es)
  have "stop_senders (run es (step e s)) =
      stop_senders (step e s) + length (filter (\<lambda>e. e = StopSend) es)"
    using Cons.prems by (intro Cons.IH step_Returned)
  then show ?case using step_senders_Returned [OF Cons.prems, of e] by simp
qed

text \<open>
  C9. From a state where the goroutine is at its \<^verbatim>\<open>select\<close> and no \<^verbatim>\<open>Stop\<close> is pending, a
  first \<^verbatim>\<open>Stop\<close> is served: its sender is released and the goroutine returns. A call of
  \<^verbatim>\<open>Stop\<close> made at any time after that stays blocked in its send whatever happens next:
  the goroutine remains returned, and the number of blocked senders is one more than the
  number of further \<^verbatim>\<open>Stop\<close> calls around it, so none of them is ever released.
\<close>

theorem second_Stop_blocks_forever:
  assumes "refill_proc s = AtSelect" and "stop_senders s = 0"
  shows "refill_proc (run [StopSend, StopRecv] s) = Returned \<and>
         stop_senders (run [StopSend, StopRecv] s) = 0 \<and>
         refill_proc (run (mid @ [StopSend] @ post) (run [StopSend, StopRecv] s)) = Returned \<and>
         stop_senders (run (mid @ [StopSend] @ post) (run [StopSend, StopRecv] s)) =
           Suc (length (filter (\<lambda>e. e = StopSend) (mid @ post)))"
proof -
  let ?t = "run [StopSend, StopRecv] s"
  have r: "refill_proc ?t = Returned" using assms by simp
  have z: "stop_senders ?t = 0" using assms by simp
  have "refill_proc (run (mid @ [StopSend] @ post) ?t) = Returned"
    using r by (rule run_Returned)
  moreover have "stop_senders (run (mid @ [StopSend] @ post) ?t) =
      Suc (length (filter (\<lambda>e. e = StopSend) (mid @ post)))"
    using run_senders_Returned [OF r, of "mid @ [StopSend] @ post"] z by simp
  ultimately show ?thesis using r z by blast
qed

theorem second_Stop_blocks_forever_witness:
  "NewTokenBucket 1 10 2 =
     Inr \<lparr>bucket = \<lparr>capacity = 10, tokens = 10, rate = 1, interval = 2\<rparr>,
          ticker_running = True, refill_proc = AtSelect, stop_senders = 0\<rparr> \<and>
   run [StopSend, StopRecv]
     \<lparr>bucket = \<lparr>capacity = 10, tokens = 10, rate = 1, interval = 2\<rparr>,
          ticker_running = True, refill_proc = AtSelect, stop_senders = 0\<rparr> =
     \<lparr>bucket = \<lparr>capacity = 10, tokens = 10, rate = 1, interval = 2\<rparr>,
          ticker_running = False, refill_proc = Returned, stop_senders = 0\<rparr> \<and>
   stop_senders (run ([CallAllow] @ [StopSend] @ [TickerFires, StopRecv, CallAllow, StopRecv])
     (run [StopSend, StopRecv]
       \<lparr>bucket = \<lparr>capacity = 10, tokens = 10, rate = 1, interval = 2\<rparr>,
          ticker_running = True, refill_proc = AtSelect, stop_senders = 0\<rparr>)) = 1"
proof -
  let ?init = "\<lparr>bucket = \<lparr>capacity = 10, tokens = 10, rate = 1, interval = 2 :: int64\<rparr>,
          ticker_running = True, refill_proc = AtSelect, stop_senders = 0\<rparr>"
  have c: "NewTokenBucket 1 10 2 = Inr ?init" by (simp add: NewTokenBucket_def)
  have h: "refill_proc ?init = AtSelect" "stop_senders ?init = 0" by simp_all
  have f: "run [StopSend, StopRecv] ?init =
     \<lparr>bucket = \<lparr>capacity = 10, tokens = 10, rate = 1, interval = 2\<rparr>,
          ticker_running = False, refill_proc = Returned, stop_senders = 0\<rparr>"
    by simp
  have n: "Suc (length (filter (\<lambda>e. e = StopSend)
      ([CallAllow] @ [TickerFires, StopRecv, CallAllow, StopRecv]))) = 1"
    by simp
  from second_Stop_blocks_forever [OF h, of "[CallAllow]" "[TickerFires, StopRecv, CallAllow, StopRecv]"]
  have "stop_senders (run ([CallAllow] @ [StopSend] @ [TickerFires, StopRecv, CallAllow, StopRecv])
     (run [StopSend, StopRecv] ?init)) = 1"
    unfolding n by blast
  with c f show ?thesis by blast
qed

section \<open>A bucket with no capacity\<close>





end
